theory Spec2Isabelle
  imports Main "HOL-Library.Word"
begin

section \<open>The ring of plugin executors (tspPluginExecutor.cpp)\<close>

text \<open>
  One executor per plugin, linked in a ring: the input executor first, then the packet
  processors, the output executor last; the successor of the output executor is the
  input executor. Every executor owns a window \<open>(pkt_first, pkt_cnt)\<close> of the
  circular packet buffer. All the fields below are read and written under the global
  mutex, so each operation is one atomic step on the state of the whole ring.

  Values of type \<open>size_t\<close> are natural numbers. \<open>passPackets\<close> subtracts only
  after its assertion has checked the operands; the one unguarded subtraction, in
  \<open>waitWork\<close>, has its wrap-around modulo \<open>2 ^ 64\<close> written out.
\<close>

datatype plugin_type = INPUT_PLUGIN | OUTPUT_PLUGIN | PROCESSOR_PLUGIN

record executor =
  plugin_type :: plugin_type  \<comment> \<open>\<open>plugin()->type()\<close>\<close>
  pkt_first :: nat            \<comment> \<open>\<open>_pkt_first\<close>: start of the window\<close>
  pkt_cnt :: nat              \<comment> \<open>\<open>_pkt_cnt\<close>: size of the window\<close>
  input_end :: bool           \<comment> \<open>\<open>_input_end\<close>\<close>
  bitrate :: nat              \<comment> \<open>\<open>_bitrate\<close>\<close>
  tsp_aborting :: bool        \<comment> \<open>\<open>_tsp_aborting\<close>, of the superclass TSP\<close>
  tsp_bitrate :: nat          \<comment> \<open>\<open>_tsp_bitrate\<close>, of the superclass TSP\<close>
  to_do :: nat                \<comment> \<open>number of \<open>signal()\<close> calls received by the condition \<open>_to_do\<close>\<close>

record pipeline =
  buffer_count :: nat         \<comment> \<open>\<open>_buffer->count()\<close>, the same buffer for every executor\<close>
  ring :: "executor list"

datatype failure =
  AssertionFailed   \<comment> \<open>an \<open>assert\<close> of the source does not hold\<close>
  | DivisionByZero  \<comment> \<open>\<open>%\<close> with a zero divisor\<close>

text \<open>
  Modelled from the spec: the ring links \<open>ringNext\<close> and \<open>ringPrevious\<close> of the class
  RingNode, whose source is not at hand. The stages are linked input, processors, output,
  and the successor of the output stage is the input stage.
\<close>

definition ringNext :: "pipeline \<Rightarrow> nat \<Rightarrow> nat" where
  "ringNext s i = (if Suc i < length (ring s) then Suc i else 0)"

definition ringPrevious :: "pipeline \<Rightarrow> nat \<Rightarrow> nat" where
  "ringPrevious s i = (if i = 0 then length (ring s) - 1 else i - 1)"

definition signal :: "nat \<Rightarrow> executor list \<Rightarrow> executor list" where
  "signal j r = r[j := (r ! j)\<lparr>to_do := Suc (to_do (r ! j))\<rparr>]"

definition initBuffer :: "nat \<Rightarrow> nat \<Rightarrow> nat \<Rightarrow> nat \<Rightarrow> bool \<Rightarrow> bool \<Rightarrow> nat \<Rightarrow> pipeline \<Rightarrow> pipeline" where
  "initBuffer i count_of_buffer first cnt in_end aborted br s =
     s\<lparr>buffer_count := count_of_buffer,
       ring := (ring s)[i := (ring s ! i)\<lparr>pkt_first := first, pkt_cnt := cnt, input_end := in_end,
                                         tsp_aborting := aborted, bitrate := br, tsp_bitrate := br\<rparr>]\<rparr>"

text \<open>
  \<open>passPackets i count br in_end aborted\<close> is the call
  \<open>passPackets(count, bitrate, input_end, aborted)\<close> on executor \<open>i\<close>. The two assertions
  and the division of \<open>%\<close> are the branches that fail; otherwise the result is the
  returned boolean and the new state.
\<close>

definition passPackets :: "nat \<Rightarrow> nat \<Rightarrow> nat \<Rightarrow> bool \<Rightarrow> bool \<Rightarrow> pipeline \<Rightarrow> failure + (bool \<times> pipeline)" where
  "passPackets i count br in_end aborted s =
     (let me = ring s ! i in
      if \<not> count \<le> pkt_cnt me then Inl AssertionFailed
      else if \<not> pkt_first me + count \<le> buffer_count s then Inl AssertionFailed
      else if buffer_count s = 0 then Inl DivisionByZero
      else
        let r1 = (ring s)[i := me\<lparr>pkt_first := (pkt_first me + count) mod buffer_count s,
                                   pkt_cnt := pkt_cnt me - count\<rparr>];
            n = ringNext s i;
            nx = r1 ! n;
            r2 = r1[n := nx\<lparr>pkt_cnt := pkt_cnt nx + count,
                             input_end := (input_end nx \<or> in_end),
                             bitrate := br\<rparr>];
            r3 = (if count > 0 \<or> in_end then signal n r2 else r2);
            aborted' = (if plugin_type (r3 ! i) \<noteq> OUTPUT_PLUGIN
                        then aborted \<or> tsp_aborting (r3 ! n) else aborted);
            r4 = (if aborted'
                  then signal (ringPrevious s i) (r3[i := (r3 ! i)\<lparr>tsp_aborting := True\<rparr>])
                  else r3)
        in Inr (\<not> in_end \<and> \<not> aborted', s\<lparr>ring := r4\<rparr>))"

definition setAbort :: "nat \<Rightarrow> pipeline \<Rightarrow> pipeline" where
  "setAbort i s =
     s\<lparr>ring := signal (ringPrevious s i) ((ring s)[i := (ring s ! i)\<lparr>tsp_aborting := True\<rparr>])\<rparr>"

text \<open>
  \<open>waitWork\<close> blocks on the condition \<open>_to_do\<close>. Each call of
  \<open>lock.waitCondition(_tsp_timeout)\<close> releases the mutex, lets the other threads run and
  takes the mutex again: a \<open>wait_event\<close> is what the executor finds then. The list of
  events is what the environment will do; when the list is exhausted while the loop still
  has to wait, the executor is blocked and the result is \<open>None\<close>.
\<close>

record wait_event =
  wake_state :: pipeline  \<comment> \<open>the state left by the other threads\<close>
  signalled :: bool       \<comment> \<open>result of \<open>lock.waitCondition(_tsp_timeout)\<close>: false on timeout\<close>
  handled :: bool         \<comment> \<open>result of \<open>plugin()->handlePacketTimeout()\<close>, called on timeout only\<close>

record work =
  w_pkt_first :: nat
  w_pkt_cnt :: nat
  w_bitrate :: nat
  w_input_end :: bool
  w_aborted :: bool
  w_timeout :: bool

definition must_wait :: "nat \<Rightarrow> bool \<Rightarrow> pipeline \<Rightarrow> bool" where
  "must_wait i timeout s =
     (pkt_cnt (ring s ! i) = 0 \<and> \<not> input_end (ring s ! i) \<and> \<not> timeout
      \<and> \<not> tsp_aborting (ring s ! ringNext s i))"

fun waitWork_loop :: "nat \<Rightarrow> wait_event list \<Rightarrow> bool \<Rightarrow> pipeline \<Rightarrow> (bool \<times> pipeline \<times> wait_event list) option" where
  "waitWork_loop i [] timeout s = (if must_wait i timeout s then None else Some (timeout, s, []))"
| "waitWork_loop i (e # es) timeout s =
     (if must_wait i timeout s
      then waitWork_loop i es (\<not> signalled e \<and> \<not> handled e) (wake_state e)
      else Some (timeout, s, e # es))"

text \<open>The subtraction of two \<open>size_t\<close> values, which wraps around below zero.\<close>

definition size_sub :: "nat \<Rightarrow> nat \<Rightarrow> nat" where
  "size_sub a b = (if b \<le> a then a - b else a + 2 ^ 64 - b)"

definition waitWork :: "nat \<Rightarrow> wait_event list \<Rightarrow> pipeline \<Rightarrow> (work \<times> pipeline \<times> wait_event list) option" where
  "waitWork i evs s =
     (case waitWork_loop i evs False s of
        None \<Rightarrow> None
      | Some (timeout, s', rest) \<Rightarrow>
          let me = ring s' ! i;
              cnt = (if timeout then 0 else min (pkt_cnt me) (size_sub (buffer_count s') (pkt_first me)))
          in Some (\<lparr>w_pkt_first = pkt_first me,
                    w_pkt_cnt = cnt,
                    w_bitrate = bitrate me,
                    w_input_end = (input_end me \<and> cnt = pkt_cnt me),
                    w_aborted = (plugin_type me \<noteq> OUTPUT_PLUGIN \<and> tsp_aborting (ring s' ! ringNext s' i)),
                    w_timeout = timeout\<rparr>, s', rest))"


subsection \<open>Concrete rings\<close>

definition stage :: "plugin_type \<Rightarrow> nat \<Rightarrow> nat \<Rightarrow> executor" where
  "stage t first cnt =
     \<lparr>plugin_type = t, pkt_first = first, pkt_cnt = cnt, input_end = False, bitrate = 0,
      tsp_aborting = False, tsp_bitrate = 0, to_do = 0\<rparr>"

text \<open>
  Eight slots shared by an input, one packet processor and an output: the output owns
  slots 0-1, the processor 2-4, the input 5-7.
\<close>

definition three_stages :: pipeline where
  "three_stages =
     \<lparr>buffer_count = 8,
      ring = [stage INPUT_PLUGIN 5 3, stage PROCESSOR_PLUGIN 2 3, stage OUTPUT_PLUGIN 0 2]\<rparr>"

text \<open>The same ring when the window of the input wraps around: slots 6, 7, 0 and 1.\<close>

definition wrapped_input :: pipeline where
  "wrapped_input =
     \<lparr>buffer_count = 8,
      ring = [stage INPUT_PLUGIN 6 4, stage PROCESSOR_PLUGIN 4 2, stage OUTPUT_PLUGIN 2 2]\<rparr>"

text \<open>The ring of \<open>three_stages\<close> after the input executor has set its abort flag.\<close>

definition input_aborting :: pipeline where
  "input_aborting =
     \<lparr>buffer_count = 8,
      ring = [(stage INPUT_PLUGIN 5 3)\<lparr>tsp_aborting := True\<rparr>, stage PROCESSOR_PLUGIN 2 3,
              stage OUTPUT_PLUGIN 0 2]\<rparr>"

section \<open>Properties of the window protocol\<close>

lemma ringNext_less: "i < length (ring s) \<Longrightarrow> ringNext s i < length (ring s)"
  by (auto simp: ringNext_def)

lemma ringPrevious_less: "i < length (ring s) \<Longrightarrow> ringPrevious s i < length (ring s)"
  by (auto simp: ringPrevious_def)

lemma ringNext_neq: "2 \<le> length (ring s) \<Longrightarrow> i < length (ring s) \<Longrightarrow> ringNext s i \<noteq> i"
  by (auto simp: ringNext_def)

lemma length_signal [simp]: "length (signal j r) = length r"
  by (simp add: signal_def)

lemma signal_nth:
  "signal j r ! k = (if k = j \<and> j < length r then (r ! k)\<lparr>to_do := Suc (to_do (r ! k))\<rparr> else r ! k)"
  by (auto simp: signal_def not_less list_update_beyond)

lemma signal_fields [simp]:
  "pkt_first (signal j r ! k) = pkt_first (r ! k)"
  "pkt_cnt (signal j r ! k) = pkt_cnt (r ! k)"
  "input_end (signal j r ! k) = input_end (r ! k)"
  "bitrate (signal j r ! k) = bitrate (r ! k)"
  "tsp_aborting (signal j r ! k) = tsp_aborting (r ! k)"
  "tsp_bitrate (signal j r ! k) = tsp_bitrate (r ! k)"
  "plugin_type (signal j r ! k) = plugin_type (r ! k)"
  by (simp_all add: signal_nth)

text \<open>
  C2, as the code has it. \<open>passPackets\<close> asserts two preconditions: \<open>count\<close> is at most
  the window count of the caller, and the packets passed do not cross the end of the
  buffer (\<open>_pkt_first + count <= _buffer->count()\<close>). Under both, in a ring of at least
  two executors over a non-empty buffer, the call succeeds, the window of the caller
  becomes \<open>((first + count) mod capacity, cnt - count)\<close>, the window count of its
  successor grows by exactly \<open>count\<close> and the window start of the successor is unchanged.
\<close>

theorem passPackets_window:
  assumes "i < length (ring s)" and "2 \<le> length (ring s)"
    and "count \<le> pkt_cnt (ring s ! i)"
    and "pkt_first (ring s ! i) + count \<le> buffer_count s"
    and "0 < buffer_count s"
  shows "\<exists>r s'. passPackets i count br in_end aborted s = Inr (r, s')
      \<and> pkt_first (ring s' ! i) = (pkt_first (ring s ! i) + count) mod buffer_count s
      \<and> pkt_cnt (ring s' ! i) = pkt_cnt (ring s ! i) - count
      \<and> pkt_cnt (ring s' ! ringNext s i) = pkt_cnt (ring s ! ringNext s i) + count
      \<and> pkt_first (ring s' ! ringNext s i) = pkt_first (ring s ! ringNext s i)"
proof -
  have n: "ringNext s i < length (ring s)" "ringNext s i \<noteq> i"
    using assms ringNext_less ringNext_neq by auto
  show ?thesis
    using assms n by (simp add: passPackets_def Let_def)
qed

theorem passPackets_window_witness:
  "1 < length (ring three_stages) \<and> 2 \<le> pkt_cnt (ring three_stages ! 1)
   \<and> pkt_first (ring three_stages ! 1) + 2 \<le> buffer_count three_stages
   \<and> (\<exists>r s'. passPackets 1 2 0 False False three_stages = Inr (r, s')
        \<and> pkt_first (ring s' ! 1) = 4 \<and> pkt_cnt (ring s' ! 1) = 1
        \<and> pkt_cnt (ring s' ! 2) = 4 \<and> pkt_first (ring s' ! 2) = 0)"
  using passPackets_window [of 1 three_stages 2 0 False False]
  by (simp add: three_stages_def stage_def ringNext_def ringPrevious_def passPackets_def signal_def)

text \<open>
  C2, as the claim states it, fails: with a window that wraps around the end of the
  buffer, a count within the window count can still cross the end of the buffer, and the
  second assertion stops the call.
\<close>

theorem passPackets_window_counterexample:
  "3 \<le> pkt_cnt (ring wrapped_input ! 0)
   \<and> passPackets 0 3 0 False False wrapped_input = Inl AssertionFailed"
  by (simp add: wrapped_input_def stage_def passPackets_def)

text \<open>
  C3, as the code has it. When the abort flag of the ring successor is set, \<open>waitWork\<close>
  returns at once: it waits for no event and leaves the state as it is. It reports
  \<open>aborted\<close> exactly when the caller is not the output executor: the output executor,
  whose successor is the input executor, is told \<open>aborted = false\<close>.
\<close>

theorem waitWork_successor_aborting:
  assumes "tsp_aborting (ring s ! ringNext s i)"
  shows "\<exists>w. waitWork i evs s = Some (w, s, evs)
      \<and> w_aborted w = (plugin_type (ring s ! i) \<noteq> OUTPUT_PLUGIN)"
  using assms by (cases evs) (simp_all add: waitWork_def must_wait_def Let_def)

theorem waitWork_successor_aborting_witness:
  "tsp_aborting (ring (setAbort 1 three_stages) ! ringNext (setAbort 1 three_stages) 0)
   \<and> (\<exists>w. waitWork 0 [] (setAbort 1 three_stages) = Some (w, setAbort 1 three_stages, [])
        \<and> w_aborted w)"
  using waitWork_successor_aborting [of "setAbort 1 three_stages" 0 "[]"]
  by (simp add: three_stages_def stage_def setAbort_def ringNext_def ringPrevious_def signal_def)

text \<open>
  C3, as the claim states it, fails for the output executor: its ring successor, the
  input executor, is aborting, and \<open>waitWork\<close> reports \<open>aborted = false\<close>.
\<close>

theorem waitWork_successor_aborting_counterexample:
  "tsp_aborting (ring input_aborting ! ringNext input_aborting 2)
   \<and> waitWork 2 [] input_aborting =
       Some (\<lparr>w_pkt_first = 0, w_pkt_cnt = 2, w_bitrate = 0, w_input_end = False,
              w_aborted = False, w_timeout = False\<rparr>, input_aborting, [])"
  by (simp add: input_aborting_def stage_def ringNext_def waitWork_def must_wait_def size_sub_def)

text \<open>
  C9. The range that \<open>waitWork\<close> returns never wraps around the end of the buffer. For a
  window that starts inside the buffer, the count returned is the minimum of the window
  count and of the number of slots from the window start to the end of the buffer, and 0
  on timeout; the range returned ends at or before the end of the buffer; and
  \<open>input_end\<close> is reported only when the executor has seen the end of input and the
  range returned is its whole window.
\<close>

theorem waitWork_no_wrap:
  assumes "waitWork i evs s = Some (w, s', rest)"
    and "pkt_first (ring s' ! i) \<le> buffer_count s'"
  shows "w_pkt_first w = pkt_first (ring s' ! i)
      \<and> w_pkt_cnt w = (if w_timeout w then 0
                       else min (pkt_cnt (ring s' ! i)) (buffer_count s' - pkt_first (ring s' ! i)))
      \<and> w_pkt_first w + w_pkt_cnt w \<le> buffer_count s'
      \<and> w_input_end w = (input_end (ring s' ! i) \<and> w_pkt_cnt w = pkt_cnt (ring s' ! i))"
  using assms
  by (auto simp: waitWork_def Let_def size_sub_def split: option.splits prod.splits)

theorem waitWork_no_wrap_witness:
  "waitWork 0 [] wrapped_input =
     Some (\<lparr>w_pkt_first = 6, w_pkt_cnt = 2, w_bitrate = 0, w_input_end = False,
            w_aborted = False, w_timeout = False\<rparr>, wrapped_input, [])
   \<and> pkt_first (ring wrapped_input ! 0) \<le> buffer_count wrapped_input
   \<and> min (pkt_cnt (ring wrapped_input ! 0))
         (buffer_count wrapped_input - pkt_first (ring wrapped_input ! 0)) = 2
   \<and> 6 + 2 \<le> buffer_count wrapped_input"
  using waitWork_no_wrap [of 0 "[]" wrapped_input _ wrapped_input "[]"]
  by (simp add: wrapped_input_def stage_def ringNext_def waitWork_def must_wait_def size_sub_def)


subsection \<open>What \<open>passPackets\<close> and \<open>waitWork\<close> do to the abort flags\<close>

lemma passPackets_Inr:
  assumes "passPackets i count br in_end aborted s = Inr (r, s')"
  shows "count \<le> pkt_cnt (ring s ! i)" "pkt_first (ring s ! i) + count \<le> buffer_count s"
    "0 < buffer_count s" "buffer_count s' = buffer_count s" "length (ring s') = length (ring s)"
  using assms by (auto simp: passPackets_def Let_def split: if_splits)







section \<open>The input executor (tspInputExecutor.cpp)\<close>

text \<open>
  A transport packet is its bytes; \<open>hasValidSync\<close> tests the sync byte \<open>0x47\<close> at
  offset 0. The null packet is the packet of PID \<open>0x1FFF\<close> with a payload of \<open>0xFF\<close>.
  The metadata of a slot carry the flag that the executor sets on its own stuffing, and
  the labels of the packet.
\<close>

type_synonym packet = "8 word list"

definition SYNC_BYTE :: "8 word" where
  "SYNC_BYTE = 0x47"

definition hasValidSync :: "packet \<Rightarrow> bool" where
  "hasValidSync p = (case p of [] \<Rightarrow> False | b # _ \<Rightarrow> b = SYNC_BYTE)"

definition first_byte :: "packet \<Rightarrow> 8 word" where
  "first_byte p = (case p of [] \<Rightarrow> 0 | b # _ \<Rightarrow> b)"

definition NullPacket :: packet where
  "NullPacket = [0x47, 0x1F, 0xFF, 0x10] @ replicate 184 0xFF"

record packet_metadata =
  input_stuffing :: bool
  labels :: "nat list"

definition reset_metadata :: packet_metadata where
  "reset_metadata = \<lparr>input_stuffing = False, labels = []\<rparr>"

definition stuffing_metadata :: packet_metadata where
  "stuffing_metadata = reset_metadata\<lparr>input_stuffing := True\<rparr>"

datatype severity = Fatal | Error | Warning | Info | Verbose | Debug

text \<open>A message of the log: its severity, its text and the numbers it prints.\<close>

type_synonym message = "severity \<times> string \<times> nat list"

text \<open>
  The parts of the environment that the executor calls and whose code is elsewhere: the
  input plugin, with a state of type \<open>'p\<close>, and the two bitrate analyzers. An analyzer is
  the list of the packets it was fed, and its two results are functions of that list.
  \<open>receive\<close> returns the packets and metadata that the plugin has written at the start
  of the area it was given, and the new state of the plugin.
\<close>

record 'p env =
  receive :: "'p \<Rightarrow> nat \<Rightarrow> (packet \<times> packet_metadata) list \<times> 'p"
  plugin_getBitrate :: "'p \<Rightarrow> nat"
  pcr_bitrateIsValid :: "packet list \<Rightarrow> bool"
  pcr_bitrate188 :: "packet list \<Rightarrow> nat"
  dts_bitrateIsValid :: "packet list \<Rightarrow> bool"
  dts_bitrate188 :: "packet list \<Rightarrow> nat"

record options =
  opt_bitrate :: nat       \<comment> \<open>\<open>_options->bitrate\<close>\<close>
  instuff_start :: nat
  instuff_stop :: nat
  instuff_nullpkt :: nat
  instuff_inpkt :: nat
  max_input_pkt :: nat
  bitrate_adj :: int       \<comment> \<open>milliseconds between two evaluations of a known bitrate\<close>
  init_bitrate_adj :: nat  \<comment> \<open>packets between two evaluations of an unknown bitrate\<close>

record 'p input_executor =
  input :: 'p                    \<comment> \<open>the state of the plugin \<open>_input\<close>\<close>
  in_sync_lost :: bool
  instuff_start_remain :: nat
  instuff_stop_remain :: nat
  instuff_nullpkt_remain :: nat
  instuff_inpkt_remain :: nat
  pcr_analyzer :: "packet list"
  dts_analyzer :: "packet list"
  use_dts_analyzer :: bool
  buffer :: "packet list"        \<comment> \<open>the packets of \<open>_buffer\<close>\<close>
  metadata :: "packet_metadata list"  \<comment> \<open>the slots of \<open>_metadata\<close>\<close>
  total_packets :: nat           \<comment> \<open>\<open>_total_packets\<close>, of the superclass TSP\<close>
  plugin_packets :: nat          \<comment> \<open>\<open>_plugin_packets\<close>, of the superclass TSP\<close>
  report :: "message list"       \<comment> \<open>the messages logged, debug messages left out\<close>

text \<open>The constructor of the input executor, on a buffer and a plugin.\<close>

definition InputExecutor :: "options \<Rightarrow> 'p \<Rightarrow> packet list \<Rightarrow> packet_metadata list \<Rightarrow> 'p input_executor" where
  "InputExecutor opts plugin buf md =
     \<lparr>input = plugin, in_sync_lost = False,
      instuff_start_remain = instuff_start opts, instuff_stop_remain = instuff_stop opts,
      instuff_nullpkt_remain = 0, instuff_inpkt_remain = 0,
      pcr_analyzer = [], dts_analyzer = [], use_dts_analyzer = False,
      buffer = buf, metadata = md, total_packets = 0, plugin_packets = 0, report = []\<rparr>"

text \<open>\<open>addPluginPackets\<close> and \<open>addNonPluginPackets\<close> of the superclass TSP.\<close>

definition addPluginPackets :: "nat \<Rightarrow> 'p input_executor \<Rightarrow> 'p input_executor" where
  "addPluginPackets n s =
     s\<lparr>total_packets := total_packets s + n, plugin_packets := plugin_packets s + n\<rparr>"

definition addNonPluginPackets :: "nat \<Rightarrow> 'p input_executor \<Rightarrow> 'p input_executor" where
  "addNonPluginPackets n s = s\<lparr>total_packets := total_packets s + n\<rparr>"

definition feedPacket :: "packet \<Rightarrow> 'p input_executor \<Rightarrow> 'p input_executor" where
  "feedPacket p s = s\<lparr>pcr_analyzer := pcr_analyzer s @ [p], dts_analyzer := dts_analyzer s @ [p]\<rparr>"

text \<open>The bitrate is a 32-bit value and the stuffing counts are 64-bit values.\<close>

definition getBitrate :: "'p env \<Rightarrow> options \<Rightarrow> 'p input_executor \<Rightarrow> nat \<times> 'p input_executor" where
  "getBitrate E opts s =
     (let br = (if opt_bitrate opts > 0 then opt_bitrate opts else plugin_getBitrate E (input s)) in
      if br \<noteq> 0 then
        (if instuff_inpkt opts = 0 then (br, s)
         else (((br * ((instuff_nullpkt opts + instuff_inpkt opts) mod 2 ^ 64)) mod 2 ^ 64
                 div instuff_inpkt opts) mod 2 ^ 32, s))
      else if \<not> use_dts_analyzer s \<and> pcr_bitrateIsValid E (pcr_analyzer s)
      then (pcr_bitrate188 E (pcr_analyzer s), s)
      else
        let s' = s\<lparr>use_dts_analyzer := (use_dts_analyzer s \<or> dts_bitrateIsValid E (dts_analyzer s))\<rparr>
        in ((if use_dts_analyzer s' then dts_bitrate188 E (dts_analyzer s') else 0), s'))"

function receiveNullPackets_loop :: "nat \<Rightarrow> nat \<Rightarrow> nat \<Rightarrow> 'p input_executor \<Rightarrow> 'p input_executor" where
  "receiveNullPackets_loop index n max_packets s =
     (if n < max_packets
      then receiveNullPackets_loop index (Suc n) max_packets
             ((feedPacket NullPacket (s\<lparr>buffer := (buffer s)[index + n := NullPacket]\<rparr>))
                \<lparr>metadata := (metadata s)[index + n := stuffing_metadata]\<rparr>)
      else s)"
  by pat_completeness auto
termination
  by (relation "measure (\<lambda>(index, n, max_packets, s). max_packets - n)") auto

declare receiveNullPackets_loop.simps [simp del]

definition receiveNullPackets :: "nat \<Rightarrow> nat \<Rightarrow> 'p input_executor \<Rightarrow> nat \<times> 'p input_executor" where
  "receiveNullPackets index max_packets s =
     (max_packets, addNonPluginPackets max_packets (receiveNullPackets_loop index 0 max_packets s))"

text \<open>The first loop of \<open>receiveAndValidate\<close>: the metadata of the area are reset.\<close>

function reset_loop :: "nat \<Rightarrow> nat \<Rightarrow> nat \<Rightarrow> packet_metadata list \<Rightarrow> packet_metadata list" where
  "reset_loop index n max_packets md =
     (if n < max_packets then reset_loop index (Suc n) max_packets (md[index + n := reset_metadata])
      else md)"
  by pat_completeness auto
termination
  by (relation "measure (\<lambda>(index, n, max_packets, md). max_packets - n)") auto

declare reset_loop.simps [simp del]

text \<open>What the plugin has written: the \<open>k\<close>-th element returned goes to slot \<open>index + k\<close>.\<close>

fun store :: "nat \<Rightarrow> 'a list \<Rightarrow> 'a list \<Rightarrow> 'a list" where
  "store index [] xs = xs"
| "store index (y # ys) xs = store (Suc index) ys (xs[index := y])"

text \<open>
  The second loop of \<open>receiveAndValidate\<close>, over the packets received. On the first
  packet without the sync byte the count is cut down to the index of that packet, which
  ends the loop.
\<close>

function validate_loop :: "nat \<Rightarrow> nat \<Rightarrow> nat \<Rightarrow> 'p input_executor \<Rightarrow> nat \<times> 'p input_executor" where
  "validate_loop index n count s =
     (if n < count then
        (if hasValidSync (buffer s ! (index + n))
         then validate_loop index (Suc n) count
                (feedPacket (buffer s ! (index + n)) (addPluginPackets 1 s))
         else validate_loop index (Suc n) n
                (s\<lparr>report := report s @
                      [(Error, ''synchronization lost'',
                        [plugin_packets s, unat (first_byte (buffer s ! (index + n))), unat SYNC_BYTE])],
                   in_sync_lost := True\<rparr>))
      else (count, s))"
  by pat_completeness auto
termination
  by (relation "measure (\<lambda>(index, n, count, s). count - n)") auto

declare validate_loop.simps [simp del]

text \<open>
  The plugin returns a count between 0 and \<open>max_packets\<close>: no more than \<open>max_packets\<close>
  of the packets of \<open>receive\<close> are taken.
\<close>

definition receiveAndValidate :: "'p env \<Rightarrow> nat \<Rightarrow> nat \<Rightarrow> 'p input_executor \<Rightarrow> nat \<times> 'p input_executor" where
  "receiveAndValidate E index max_packets s =
     (if in_sync_lost s then (0, s)
      else
        let s1 = s\<lparr>metadata := reset_loop index 0 max_packets (metadata s)\<rparr>;
            (got, plugin') = receive E (input s1) max_packets;
            written = take max_packets got;
            s2 = s1\<lparr>input := plugin',
                    buffer := store index (map fst written) (buffer s1),
                    metadata := store index (map snd written) (metadata s1)\<rparr>
        in validate_loop index 0 (length written) s2)"


text \<open>The stuffing counters are not touched by \<open>receiveNullPackets\<close>.\<close>

lemma receiveNullPackets_loop_remain:
  "instuff_nullpkt_remain (receiveNullPackets_loop index n m s) = instuff_nullpkt_remain s
   \<and> instuff_inpkt_remain (receiveNullPackets_loop index n m s) = instuff_inpkt_remain s
   \<and> instuff_start_remain (receiveNullPackets_loop index n m s) = instuff_start_remain s
   \<and> instuff_stop_remain (receiveNullPackets_loop index n m s) = instuff_stop_remain s"
proof (induction index n m s rule: receiveNullPackets_loop.induct)
  case (1 index n max_packets s)
  show ?case
  proof (cases "n < max_packets")
    case True
    then show ?thesis
      using 1 by (subst (1 2 3 4) receiveNullPackets_loop.simps) (simp add: feedPacket_def)
  next
    case False
    then show ?thesis by (simp add: receiveNullPackets_loop.simps)
  qed
qed

lemma receiveNullPackets_remain:
  assumes "receiveNullPackets index m s = (c, s')"
  shows "c = m" "instuff_nullpkt_remain s' = instuff_nullpkt_remain s"
    "instuff_inpkt_remain s' = instuff_inpkt_remain s"
    "instuff_start_remain s' = instuff_start_remain s"
    "instuff_stop_remain s' = instuff_stop_remain s"
  using assms receiveNullPackets_loop_remain [of index 0 m s]
  by (auto simp: receiveNullPackets_def addNonPluginPackets_def)

text \<open>The first loop of \<open>receiveAndStuff\<close>: the initial stuffing.\<close>

function leading_loop :: "nat \<Rightarrow> nat \<Rightarrow> nat \<Rightarrow> 'p input_executor \<Rightarrow> nat \<times> nat \<times> nat \<times> 'p input_executor" where
  "leading_loop index pkt_remain pkt_done s =
     (if instuff_start_remain s > 0 \<and> pkt_remain > 0
      then leading_loop (index + 1) (pkt_remain - 1) (pkt_done + 1)
             (addNonPluginPackets 1
                (s\<lparr>buffer := (buffer s)[index := NullPacket],
                   metadata := (metadata s)[index := stuffing_metadata],
                   instuff_start_remain := instuff_start_remain s - 1\<rparr>))
      else (index, pkt_remain, pkt_done, s))"
  by pat_completeness auto
termination
  by (relation "measure (\<lambda>(index, pkt_remain, pkt_done, s). pkt_remain)") auto

declare leading_loop.simps [simp del]

text \<open>
  The second loop of \<open>receiveAndStuff\<close>, which alternates null packets and input
  packets. \<open>restart_input\<close> and \<open>restart_nulls\<close> are the two tests that restart a
  sequence when both counters are zero. \<open>stuff_step\<close> is the body of the loop: the
  boolean of its result tells whether the loop goes on (neither \<open>break\<close> was taken), and
  the rest are the new values of \<open>index\<close>, \<open>pkt_remain\<close>, \<open>pkt_done\<close> and
  \<open>pkt_from_input\<close>, and the new state.
\<close>

definition restart_input :: "options \<Rightarrow> 'p input_executor \<Rightarrow> 'p input_executor" where
  "restart_input opts s =
     (if instuff_nullpkt_remain s = 0 \<and> instuff_inpkt_remain s = 0
      then s\<lparr>instuff_inpkt_remain := instuff_inpkt opts\<rparr> else s)"

definition restart_nulls :: "options \<Rightarrow> 'p input_executor \<Rightarrow> 'p input_executor" where
  "restart_nulls opts s =
     (if instuff_nullpkt_remain s = 0 \<and> instuff_inpkt_remain s = 0
      then s\<lparr>instuff_nullpkt_remain := instuff_nullpkt opts\<rparr> else s)"

definition stuff_step :: "'p env \<Rightarrow> options \<Rightarrow> nat \<Rightarrow> nat \<Rightarrow> nat \<Rightarrow> nat \<Rightarrow> 'p input_executor \<Rightarrow> bool \<times> nat \<times> nat \<times> nat \<times> nat \<times> 'p input_executor" where
  "stuff_step E opts index pkt_remain pkt_done pkt_from_input s =
     (let (count, s1) = receiveNullPackets index (min (instuff_nullpkt_remain s) pkt_remain) s;
          s2 = s1\<lparr>instuff_nullpkt_remain := instuff_nullpkt_remain s1 - count\<rparr>;
          index2 = index + count;
          pkt_remain2 = pkt_remain - count;
          pkt_done2 = pkt_done + count
      in if pkt_remain2 = 0 then (False, index2, pkt_remain2, pkt_done2, pkt_from_input, s2)
         else
           let s3 = restart_input opts s2;
               max_input = min pkt_remain2 (instuff_inpkt_remain s3);
               (count2, s4) = receiveAndValidate E index2 max_input s3;
               s5 = s4\<lparr>instuff_inpkt_remain := instuff_inpkt_remain s4 - count2\<rparr>;
               s6 = restart_nulls opts s5
           in (\<not> count2 < max_input, index2 + count2, pkt_remain2 - count2, pkt_done2 + count2,
               pkt_from_input + count2, s6))"

text \<open>
  A step that goes on has read at least one packet. The source enters the loop only
  when \<open>_options->instuff_inpkt\<close> is not zero; the test is repeated in the loop below,
  which ends only then. The result of the loop is \<open>pkt_done\<close>, \<open>pkt_from_input\<close> and
  the new state.
\<close>

lemma stuff_step_decreases:
  assumes "stuff_step E opts index r d f s = (True, index', r', d', f', s')"
    and "0 < instuff_inpkt opts" and "0 < r"
  shows "r' < r"
proof -
  obtain count s1 where nul: "receiveNullPackets index (min (instuff_nullpkt_remain s) r) s = (count, s1)"
    by (cases "receiveNullPackets index (min (instuff_nullpkt_remain s) r) s")
  note nf = receiveNullPackets_remain [OF nul]
  let ?s3 = "restart_input opts (s1\<lparr>instuff_nullpkt_remain := instuff_nullpkt_remain s1 - count\<rparr>)"
  obtain count2 s4 where rv: "receiveAndValidate E (index + count)
      (min (r - count) (instuff_inpkt_remain ?s3)) ?s3 = (count2, s4)"
    by (cases "receiveAndValidate E (index + count) (min (r - count) (instuff_inpkt_remain ?s3)) ?s3")
  have nz: "r - count \<noteq> 0" and go: "\<not> count2 < min (r - count) (instuff_inpkt_remain ?s3)"
    and r': "r' = r - count - count2"
    using assms(1) nul rv by (auto simp: stuff_step_def Let_def split: if_splits)
  have "0 < instuff_inpkt_remain ?s3"
    using nf nz assms(2) by (auto simp: restart_input_def min_def split: if_splits)
  then have "0 < count2"
    using go nz by (auto simp: min_def split: if_splits)
  then show ?thesis
    using r' nz by simp
qed

function stuff_loop :: "'p env \<Rightarrow> options \<Rightarrow> nat \<Rightarrow> nat \<Rightarrow> nat \<Rightarrow> nat \<Rightarrow> 'p input_executor \<Rightarrow> nat \<times> nat \<times> 'p input_executor" where
  "stuff_loop E opts index pkt_remain pkt_done pkt_from_input s =
     (if instuff_inpkt opts = 0 \<or> pkt_remain = 0 then (pkt_done, pkt_from_input, s)
      else
        let (continue, index', pkt_remain', pkt_done', pkt_from_input', s') =
              stuff_step E opts index pkt_remain pkt_done pkt_from_input s
        in if continue then stuff_loop E opts index' pkt_remain' pkt_done' pkt_from_input' s'
           else (pkt_done', pkt_from_input', s'))"
  by pat_completeness auto
termination
proof (relation "measure (\<lambda>(E, opts, index, pkt_remain, pkt_done, pkt_from_input, s). pkt_remain)", goal_cases)
  case 1
  show ?case by simp
next
  case (2 E opts index pkt_remain pkt_done pkt_from_input s x continue y index' z pkt_remain' u pkt_done' v pkt_from_input' s')
  then have "stuff_step E opts index pkt_remain pkt_done pkt_from_input s
      = (True, index', pkt_remain', pkt_done', pkt_from_input', s')"
    by simp
  from stuff_step_decreases [OF this] 2 show ?case by auto
qed

declare stuff_loop.simps [simp del]

definition receiveAndStuff :: "'p env \<Rightarrow> options \<Rightarrow> nat \<Rightarrow> nat \<Rightarrow> 'p input_executor \<Rightarrow> nat \<times> 'p input_executor" where
  "receiveAndStuff E opts index max_packets s =
     (let (index1, pkt_remain, pkt_done, s1) = leading_loop index max_packets 0 s in
      if instuff_inpkt opts = 0 then
        let (pkt_from_input, s2) = receiveAndValidate E index1 pkt_remain s1
        in ((if pkt_from_input = 0 then 0 else pkt_done + pkt_from_input), s2)
      else
        let (pkt_done2, pkt_from_input, s2) = stuff_loop E opts index1 pkt_remain pkt_done 0 s1
        in ((if pkt_from_input = 0 then 0 else pkt_done2), s2))"

text \<open>
  The part of the loop body of \<open>main\<close> that reads packets (lines 345 to 367), after
  \<open>waitWork\<close> has returned the area of \<open>pkt_max\<close> slots from slot \<open>first\<close> and before the bitrate is
  adjusted and the packets are passed. The result is \<open>pkt_read\<close>, the new values of
  \<open>plugin_completed\<close> and \<open>input_end\<close>, and the new state.
\<close>

definition main_read :: "'p env \<Rightarrow> options \<Rightarrow> nat \<Rightarrow> nat \<Rightarrow> bool \<Rightarrow> 'p input_executor \<Rightarrow> nat \<times> bool \<times> bool \<times> 'p input_executor" where
  "main_read E opts first pkt_max0 plugin_completed s =
     (let pkt_max = (if max_input_pkt opts > 0 \<and> pkt_max0 > max_input_pkt opts
                     then max_input_pkt opts else pkt_max0);
          (pkt_read, completed, s1) =
             (if \<not> plugin_completed
              then (let (n, s') = receiveAndStuff E opts first pkt_max s in (n, n = 0, s'))
              else (0, plugin_completed, s));
          (pkt_read2, s2) =
             (if completed \<and> instuff_stop_remain s1 > 0 \<and> pkt_read < pkt_max
              then (let (count, s') = receiveNullPackets (first + pkt_read)
                                        (min (instuff_stop_remain s1) (pkt_max - pkt_read)) s1
                    in (pkt_read + count, s'\<lparr>instuff_stop_remain := instuff_stop_remain s' - count\<rparr>))
              else (pkt_read, s1))
      in (pkt_read2, completed, completed \<and> instuff_stop_remain s2 = 0, s2))"

text \<open>
  The whole body of the loop of \<open>main\<close>. Its local variables are a record; \<open>bitrate\<close>
  and \<open>input_end\<close> receive what \<open>waitWork\<close> returns, as in the source. The time is
  a number of milliseconds, and \<open>now\<close> is what \<open>Time::CurrentUTC()\<close> returns if the
  iteration reads the clock.
\<close>

record main_locals =
  current_time :: int
  bitrate_due_time :: int
  bitrate_due_packet :: nat
  plugin_completed :: bool
  m_bitrate :: nat         \<comment> \<open>the local variable \<open>bitrate\<close>\<close>
  m_input_end :: bool      \<comment> \<open>the local variable \<open>input_end\<close>\<close>
  m_aborted :: bool        \<comment> \<open>the local variable \<open>aborted\<close>\<close>








text \<open>
  \<open>initAllBuffers\<close>, run before the threads start. Its last loop gives an empty window
  to every executor after the successor of the input executor.
\<close>

lemma length_ring_initBuffer [simp]:
  "length (ring (initBuffer i c first cnt in_end aborted br s)) = length (ring s)"
  by (simp add: initBuffer_def)

function init_others :: "nat \<Rightarrow> nat \<Rightarrow> bool \<Rightarrow> nat \<Rightarrow> pipeline \<Rightarrow> pipeline" where
  "init_others j c stop br s =
     (let nx = ringNext s j in
      if nx \<noteq> 0 then init_others nx c stop br (initBuffer nx c 0 0 stop stop br s) else s)"
  by pat_completeness auto
termination
  by (relation "measure (\<lambda>(j, c, stop, br, s). length (ring s) - j)")
     (auto simp: ringNext_def split: if_splits)

declare init_others.simps [simp del]

definition initAllBuffers :: "'p env \<Rightarrow> options \<Rightarrow> 'p input_executor \<Rightarrow> pipeline \<Rightarrow> bool \<times> 'p input_executor \<times> pipeline" where
  "initAllBuffers E opts s pl =
     (let c = length (buffer s);
          pl1 = initBuffer 0 c 0 c False False 0 pl;
          (pkt_read, s1) = receiveAndStuff E opts 0 (c div 2) s
      in if pkt_read = 0 then (False, s1, pl1)
         else
           let (init_bitrate, s2) = getBitrate E opts s1;
               s3 = s2\<lparr>report := report s2 @
                      [if init_bitrate = 0 then (Verbose, ''unknown initial input bitrate'', [])
                       else (Verbose, ''initial input bitrate'', [init_bitrate])]\<rparr>;
               nx = ringNext pl1 0;
               pl2 = initBuffer nx c 0 pkt_read (pkt_read = 0) (pkt_read = 0) init_bitrate pl1;
               pl3 = initBuffer 0 c (pkt_read mod c) (c - pkt_read) (pkt_read = 0) (pkt_read = 0)
                       init_bitrate pl2
           in (True, s3, init_others nx c (pkt_read = 0) init_bitrate pl3))"


section \<open>Properties of the input executor\<close>

subsection \<open>What each loop changes\<close>

lemma receiveNullPackets_loop_frame:
  "receiveNullPackets_loop index n m s = s' \<Longrightarrow>
     in_sync_lost s' = in_sync_lost s \<and> use_dts_analyzer s' = use_dts_analyzer s
     \<and> plugin_packets s' = plugin_packets s \<and> total_packets s' = total_packets s
     \<and> input s' = input s \<and> report s' = report s
     \<and> length (buffer s') = length (buffer s) \<and> length (metadata s') = length (metadata s)"
proof (induction index n m s arbitrary: s' rule: receiveNullPackets_loop.induct)
  case (1 index n max_packets s)
  show ?case
  proof (cases "n < max_packets")
    case True
    have "receiveNullPackets_loop index (Suc n) max_packets
             ((feedPacket NullPacket (s\<lparr>buffer := (buffer s)[index + n := NullPacket]\<rparr>))
                \<lparr>metadata := (metadata s)[index + n := stuffing_metadata]\<rparr>) = s'"
      using "1.prems" True by (subst (asm) receiveNullPackets_loop.simps) simp
    from "1.IH" [OF True this] show ?thesis
      by (simp add: feedPacket_def)
  next
    case False
    then show ?thesis
      using "1.prems" by (simp add: receiveNullPackets_loop.simps)
  qed
qed

lemma receiveNullPackets_frame:
  assumes "receiveNullPackets index m s = (c, s')"
  shows "in_sync_lost s' = in_sync_lost s" "use_dts_analyzer s' = use_dts_analyzer s"
    "plugin_packets s' = plugin_packets s" "total_packets s' = total_packets s + m"
    "input s' = input s" "report s' = report s"
    "length (buffer s') = length (buffer s)" "length (metadata s') = length (metadata s)"
  using assms receiveNullPackets_loop_frame [OF refl, of index 0 m s]
  by (auto simp: receiveNullPackets_def addNonPluginPackets_def)

lemma validate_loop_frame:
  "validate_loop index n count s = (c, s') \<Longrightarrow>
     use_dts_analyzer s' = use_dts_analyzer s
     \<and> instuff_start_remain s' = instuff_start_remain s
     \<and> instuff_stop_remain s' = instuff_stop_remain s
     \<and> instuff_nullpkt_remain s' = instuff_nullpkt_remain s
     \<and> instuff_inpkt_remain s' = instuff_inpkt_remain s
     \<and> input s' = input s \<and> buffer s' = buffer s \<and> metadata s' = metadata s
     \<and> (in_sync_lost s \<longrightarrow> in_sync_lost s')
     \<and> (n \<le> count \<longrightarrow> n \<le> c \<and> c \<le> count \<and> plugin_packets s' = plugin_packets s + (c - n))"
proof (induction index n count s arbitrary: c s' rule: validate_loop.induct)
  case (1 index n count s)
  show ?case
  proof (cases "n < count")
    case False
    then show ?thesis
      using "1.prems" by (auto simp: validate_loop.simps)
  next
    case True
    show ?thesis
    proof (cases "hasValidSync (buffer s ! (index + n))")
      case valid: True
      have "validate_loop index (Suc n) count
              (feedPacket (buffer s ! (index + n)) (addPluginPackets 1 s)) = (c, s')"
        using "1.prems" True valid by (subst (asm) validate_loop.simps) simp
      from "1.IH"(1) [OF True valid this] True show ?thesis
        by (auto simp: feedPacket_def addPluginPackets_def)
    next
      case invalid: False
      have "(c, s') = (n, s\<lparr>report := report s @
                      [(Error, ''synchronization lost'',
                        [plugin_packets s, unat (first_byte (buffer s ! (index + n))), unat SYNC_BYTE])],
                   in_sync_lost := True\<rparr>)"
        using "1.prems" True invalid
        by (subst (asm) validate_loop.simps) (auto simp: validate_loop.simps [of _ "Suc n" n])
      then show ?thesis using True by auto
    qed
  qed
qed

lemma length_reset_loop [simp]: "length (reset_loop index n m md) = length md"
proof (induction index n m md rule: reset_loop.induct)
  case (1 index n max_packets md)
  then show ?case by (subst reset_loop.simps) simp
qed

lemma length_store [simp]: "length (store index ys xs) = length xs"
  by (induction ys arbitrary: index xs) auto

lemma receiveAndValidate_lost: "in_sync_lost s \<Longrightarrow> receiveAndValidate E index m s = (0, s)"
  by (simp add: receiveAndValidate_def)

text \<open>
  The state of the executor after the plugin has written the packets of one
  \<open>receive\<close>, before \<open>receiveAndValidate\<close> checks them.
\<close>

definition received :: "'p env \<Rightarrow> nat \<Rightarrow> nat \<Rightarrow> 'p input_executor \<Rightarrow> 'p input_executor" where
  "received E index m s =
     (let written = take m (fst (receive E (input s) m)) in
      s\<lparr>input := snd (receive E (input s) m),
        buffer := store index (map fst written) (buffer s),
        metadata := store index (map snd written) (reset_loop index 0 m (metadata s))\<rparr>)"

lemma receiveAndValidate_read:
  "\<not> in_sync_lost s \<Longrightarrow>
   receiveAndValidate E index m s =
     validate_loop index 0 (length (take m (fst (receive E (input s) m)))) (received E index m s)"
  by (simp add: receiveAndValidate_def received_def Let_def split: prod.splits)

lemma received_frame [simp]:
  "use_dts_analyzer (received E index m s) = use_dts_analyzer s"
  "instuff_start_remain (received E index m s) = instuff_start_remain s"
  "instuff_stop_remain (received E index m s) = instuff_stop_remain s"
  "instuff_nullpkt_remain (received E index m s) = instuff_nullpkt_remain s"
  "instuff_inpkt_remain (received E index m s) = instuff_inpkt_remain s"
  "plugin_packets (received E index m s) = plugin_packets s"
  "in_sync_lost (received E index m s) = in_sync_lost s"
  "report (received E index m s) = report s"
  "length (buffer (received E index m s)) = length (buffer s)"
  "length (metadata (received E index m s)) = length (metadata s)"
  by (simp_all add: received_def Let_def)

lemma receiveAndValidate_frame:
  assumes "receiveAndValidate E index m s = (c, s')"
  shows "use_dts_analyzer s' = use_dts_analyzer s \<and>
    instuff_start_remain s' = instuff_start_remain s \<and>
    instuff_stop_remain s' = instuff_stop_remain s \<and>
    instuff_nullpkt_remain s' = instuff_nullpkt_remain s \<and>
    instuff_inpkt_remain s' = instuff_inpkt_remain s \<and>
    (in_sync_lost s \<longrightarrow> in_sync_lost s') \<and>
    c \<le> m \<and> plugin_packets s' = plugin_packets s + c \<and>
    length (buffer s') = length (buffer s) \<and> length (metadata s') = length (metadata s)"
proof (cases "in_sync_lost s")
  case True
  then show ?thesis using assms by (simp add: receiveAndValidate_lost)
next
  case False
  have v: "validate_loop index 0 (length (take m (fst (receive E (input s) m)))) (received E index m s) = (c, s')"
    using assms receiveAndValidate_read [OF False, of E index m] by simp
  from validate_loop_frame [OF v] False show ?thesis by simp
qed

lemma leading_loop_frame:
  "leading_loop index r d s = (index', r', d', s') \<Longrightarrow>
     use_dts_analyzer s' = use_dts_analyzer s \<and> in_sync_lost s' = in_sync_lost s
     \<and> instuff_stop_remain s' = instuff_stop_remain s
     \<and> instuff_nullpkt_remain s' = instuff_nullpkt_remain s
     \<and> instuff_inpkt_remain s' = instuff_inpkt_remain s
     \<and> plugin_packets s' = plugin_packets s \<and> input s' = input s \<and> report s' = report s
     \<and> length (buffer s') = length (buffer s) \<and> length (metadata s') = length (metadata s)
     \<and> d' + r' = d + r \<and> d' = d + min (instuff_start_remain s) r
     \<and> index' = index + min (instuff_start_remain s) r
     \<and> instuff_start_remain s' = instuff_start_remain s - min (instuff_start_remain s) r"
proof (induction index r d s arbitrary: index' r' d' s' rule: leading_loop.induct)
  case (1 index pkt_remain pkt_done s)
  show ?case
  proof (cases "instuff_start_remain s > 0 \<and> pkt_remain > 0")
    case True
    have "leading_loop (index + 1) (pkt_remain - 1) (pkt_done + 1)
             (addNonPluginPackets 1
                (s\<lparr>buffer := (buffer s)[index := NullPacket],
                   metadata := (metadata s)[index := stuffing_metadata],
                   instuff_start_remain := instuff_start_remain s - 1\<rparr>)) = (index', r', d', s')"
      using "1.prems" True by (subst (asm) leading_loop.simps) simp
    from "1.IH" [OF True this] True show ?thesis
      by (auto simp: addNonPluginPackets_def min_def)
  next
    case False
    then show ?thesis
      using "1.prems" by (subst (asm) leading_loop.simps) (auto simp: min_def)
  qed
qed

lemma stuff_step_frame:
  assumes "stuff_step E opts index r d f s = (cont, index', r', d', f', s')"
  shows "use_dts_analyzer s' = use_dts_analyzer s
     \<and> instuff_start_remain s' = instuff_start_remain s
     \<and> instuff_stop_remain s' = instuff_stop_remain s
     \<and> (in_sync_lost s \<longrightarrow> in_sync_lost s')
     \<and> length (buffer s') = length (buffer s) \<and> length (metadata s') = length (metadata s)
     \<and> d \<le> d' \<and> d' + r' = d + r \<and> r' \<le> r \<and> f \<le> f' \<and> f' + d \<le> d' + f \<and> plugin_packets s' = plugin_packets s + (f' - f)"
proof -
  obtain count s1 where nul: "receiveNullPackets index (min (instuff_nullpkt_remain s) r) s = (count, s1)"
    by (cases "receiveNullPackets index (min (instuff_nullpkt_remain s) r) s")
  note nf = receiveNullPackets_remain [OF nul] receiveNullPackets_frame [OF nul]
  let ?s2 = "s1\<lparr>instuff_nullpkt_remain := instuff_nullpkt_remain s1 - count\<rparr>"
  let ?s3 = "restart_input opts ?s2"
  show ?thesis
  proof (cases "r - count = 0")
    case True
    then have "(cont, index', r', d', f', s') = (False, index + count, r - count, d + count, f, ?s2)"
      using assms nul by (simp add: stuff_step_def Let_def)
    then show ?thesis using nf by auto
  next
    case False
    obtain count2 s4 where rv: "receiveAndValidate E (index + count)
        (min (r - count) (instuff_inpkt_remain ?s3)) ?s3 = (count2, s4)"
      by (cases "receiveAndValidate E (index + count) (min (r - count) (instuff_inpkt_remain ?s3)) ?s3")
    note rf = receiveAndValidate_frame [OF rv]
    have res: "r' = r - count - count2" "d' = d + count + count2" "f' = f + count2"
      "s' = restart_nulls opts (s4\<lparr>instuff_inpkt_remain := instuff_inpkt_remain s4 - count2\<rparr>)"
      using assms nul rv False by (auto simp: stuff_step_def Let_def)
    have s3: "use_dts_analyzer ?s3 = use_dts_analyzer s"
      "instuff_start_remain ?s3 = instuff_start_remain s"
      "instuff_stop_remain ?s3 = instuff_stop_remain s"
      "in_sync_lost ?s3 = in_sync_lost s" "plugin_packets ?s3 = plugin_packets s"
      "length (buffer ?s3) = length (buffer s)" "length (metadata ?s3) = length (metadata s)"
      using nf by (simp_all add: restart_input_def)
    have "count \<le> r" using nf by simp
    moreover have "count2 \<le> r - count" using rf by simp
    ultimately show ?thesis
      using res rf s3 by (simp add: restart_nulls_def)
  qed
qed

lemma stuff_loop_frame:
  "stuff_loop E opts index r d f s = (d', f', s') \<Longrightarrow>
     use_dts_analyzer s' = use_dts_analyzer s
     \<and> instuff_start_remain s' = instuff_start_remain s
     \<and> instuff_stop_remain s' = instuff_stop_remain s
     \<and> (in_sync_lost s \<longrightarrow> in_sync_lost s')
     \<and> length (buffer s') = length (buffer s) \<and> length (metadata s') = length (metadata s)
     \<and> d \<le> d' \<and> d' \<le> d + r \<and> f \<le> f' \<and> f' + d \<le> d' + f \<and> plugin_packets s' = plugin_packets s + (f' - f)"
proof (induction E opts index r d f s arbitrary: d' f' s' rule: stuff_loop.induct)
  case (1 E opts index pkt_remain pkt_done pkt_from_input s)
  show ?case
  proof (cases "instuff_inpkt opts = 0 \<or> pkt_remain = 0")
    case True
    then show ?thesis
      using "1.prems" by (subst (asm) stuff_loop.simps) auto
  next
    case g: False
    obtain cont i1 r1 d1 f1 s1 where st: "stuff_step E opts index pkt_remain pkt_done pkt_from_input s = (cont, i1, r1, d1, f1, s1)"
      by (metis prod_cases6)
    note sf = stuff_step_frame [OF st]
    show ?thesis
    proof (cases cont)
      case False
      then have "(d', f', s') = (d1, f1, s1)"
        using "1.prems" g st by (subst (asm) stuff_loop.simps) simp
      then show ?thesis using sf by auto
    next
      case True
      then have rec: "stuff_loop E opts i1 r1 d1 f1 s1 = (d', f', s')"
        using "1.prems" g st by (subst (asm) stuff_loop.simps) simp
      from "1.IH" [OF g st [symmetric] refl refl refl refl refl True rec] sf
      show ?thesis by auto
    qed
  qed
qed

lemma receiveAndStuff_effect:
  assumes "receiveAndStuff E opts index m s = (n, s')"
  shows "use_dts_analyzer s' = use_dts_analyzer s
     \<and> instuff_stop_remain s' = instuff_stop_remain s
     \<and> (in_sync_lost s \<longrightarrow> in_sync_lost s')
     \<and> length (buffer s') = length (buffer s) \<and> length (metadata s') = length (metadata s)
     \<and> n \<le> m \<and> plugin_packets s \<le> plugin_packets s'
     \<and> (n = 0) = (plugin_packets s' = plugin_packets s)
     \<and> instuff_start_remain s' = instuff_start_remain s - min (instuff_start_remain s) m"
proof -
  obtain i1 r1 d1 s1 where ld: "leading_loop index m 0 s = (i1, r1, d1, s1)"
    by (metis prod_cases4)
  note lf = leading_loop_frame [OF ld]
  show ?thesis
  proof (cases "instuff_inpkt opts = 0")
    case True
    obtain c s2 where rv: "receiveAndValidate E i1 r1 s1 = (c, s2)"
      by (cases "receiveAndValidate E i1 r1 s1")
    note rf = receiveAndValidate_frame [OF rv]
    have "n = (if c = 0 then 0 else d1 + c)" "s' = s2"
      using assms ld rv True by (auto simp: receiveAndStuff_def)
    then show ?thesis using lf rf by auto
  next
    case False
    obtain d2 f2 s2 where sl: "stuff_loop E opts i1 r1 d1 0 s1 = (d2, f2, s2)"
      by (metis prod_cases3)
    note sf = stuff_loop_frame [OF sl]
    have "n = (if f2 = 0 then 0 else d2)" "s' = s2"
      using assms ld sl False by (auto simp: receiveAndStuff_def)
    then show ?thesis using lf sf by auto
  qed
qed


lemma main_read_unfold:
  "main_read E opts first pkt_max0 completed0 s =
     (let pkt_max = (if max_input_pkt opts > 0 \<and> pkt_max0 > max_input_pkt opts
                     then max_input_pkt opts else pkt_max0);
          r1 = (if completed0 then 0 else fst (receiveAndStuff E opts first pkt_max s));
          c1 = (if completed0 then True else r1 = 0);
          s1 = (if completed0 then s else snd (receiveAndStuff E opts first pkt_max s));
          trail = receiveNullPackets (first + r1) (min (instuff_stop_remain s1) (pkt_max - r1)) s1
      in if c1 \<and> instuff_stop_remain s1 > 0 \<and> r1 < pkt_max
         then (r1 + fst trail, c1, c1 \<and> instuff_stop_remain (snd trail) - fst trail = 0,
               (snd trail)\<lparr>instuff_stop_remain := instuff_stop_remain (snd trail) - fst trail\<rparr>)
         else (r1, c1, c1 \<and> instuff_stop_remain s1 = 0, s1))"
  by (cases completed0) (simp_all add: main_read_def Let_def split_beta)

lemma main_read_effect:
  assumes "main_read E opts first pkt_max0 completed0 s = (pkt_read, completed, in_end, s')"
  shows "use_dts_analyzer s' = use_dts_analyzer s
     \<and> (in_sync_lost s \<longrightarrow> in_sync_lost s')
     \<and> length (buffer s') = length (buffer s) \<and> length (metadata s') = length (metadata s)
     \<and> plugin_packets s \<le> plugin_packets s'
     \<and> (\<not> completed0 \<and> plugin_packets s' = plugin_packets s \<longrightarrow>
          completed
          \<and> pkt_read = min (instuff_stop_remain s)
                (if max_input_pkt opts > 0 \<and> pkt_max0 > max_input_pkt opts then max_input_pkt opts else pkt_max0)
          \<and> in_end = (instuff_stop_remain s \<le>
                (if max_input_pkt opts > 0 \<and> pkt_max0 > max_input_pkt opts then max_input_pkt opts else pkt_max0))
          \<and> instuff_stop_remain s' = instuff_stop_remain s - pkt_read
          \<and> instuff_start_remain s' = instuff_start_remain s - min (instuff_start_remain s)
                (if max_input_pkt opts > 0 \<and> pkt_max0 > max_input_pkt opts then max_input_pkt opts else pkt_max0))"
proof -
  define pkt_max where "pkt_max = (if max_input_pkt opts > 0 \<and> pkt_max0 > max_input_pkt opts then max_input_pkt opts else pkt_max0)"
  obtain n s0 where rs: "receiveAndStuff E opts first pkt_max s = (n, s0)"
    by (cases "receiveAndStuff E opts first pkt_max s")
  note re = receiveAndStuff_effect [OF rs]
  define r1 where "r1 = (if completed0 then 0 else n)"
  define c1 where "c1 = (if completed0 then True else r1 = 0)"
  define s1 where "s1 = (if completed0 then s else s0)"
  have s1: "use_dts_analyzer s1 = use_dts_analyzer s" "in_sync_lost s \<longrightarrow> in_sync_lost s1"
    "length (buffer s1) = length (buffer s)" "length (metadata s1) = length (metadata s)"
    "plugin_packets s \<le> plugin_packets s1" "instuff_stop_remain s1 = instuff_stop_remain s"
    "\<not> completed0 \<longrightarrow> r1 = n \<and> c1 = (n = 0) \<and> s1 = s0"
    using re by (auto simp: r1_def c1_def s1_def)
  obtain c2 s2 where nul: "receiveNullPackets (first + r1) (min (instuff_stop_remain s1) (pkt_max - r1)) s1 = (c2, s2)"
    by (cases "receiveNullPackets (first + r1) (min (instuff_stop_remain s1) (pkt_max - r1)) s1")
  note nf = receiveNullPackets_remain [OF nul] receiveNullPackets_frame [OF nul]
  have mr: "main_read E opts first pkt_max0 completed0 s =
      (if c1 \<and> instuff_stop_remain s1 > 0 \<and> r1 < pkt_max
       then (r1 + c2, c1, c1 \<and> instuff_stop_remain s2 - c2 = 0, s2\<lparr>instuff_stop_remain := instuff_stop_remain s2 - c2\<rparr>)
       else (r1, c1, c1 \<and> instuff_stop_remain s1 = 0, s1))"
  proof (cases completed0)
    case True
    then have "r1 = 0" "c1" "s1 = s"
      by (simp_all add: r1_def c1_def s1_def)
    with nul True show ?thesis
      by (simp add: main_read_unfold Let_def pkt_max_def [symmetric])
  next
    case False
    then have "r1 = n" "c1 = (n = 0)" "s1 = s0"
      by (simp_all add: r1_def c1_def s1_def)
    with nul rs False show ?thesis
      by (auto simp: main_read_unfold Let_def pkt_max_def [symmetric])
  qed
  show ?thesis
  proof (cases "c1 \<and> instuff_stop_remain s1 > 0 \<and> r1 < pkt_max")
    case True
    with mr assms have eqs: "pkt_read = r1 + c2" "completed = c1" "in_end = (c1 \<and> instuff_stop_remain s2 - c2 = 0)"
      "s' = s2\<lparr>instuff_stop_remain := instuff_stop_remain s2 - c2\<rparr>"
      by simp_all
    have frame: "use_dts_analyzer s' = use_dts_analyzer s" "in_sync_lost s \<longrightarrow> in_sync_lost s'"
      "length (buffer s') = length (buffer s)" "length (metadata s') = length (metadata s)"
      "plugin_packets s \<le> plugin_packets s'"
      using eqs s1 nf by simp_all
    have "completed \<and> pkt_read = min (instuff_stop_remain s) pkt_max
        \<and> in_end = (instuff_stop_remain s \<le> pkt_max)
        \<and> instuff_stop_remain s' = instuff_stop_remain s - pkt_read
        \<and> instuff_start_remain s' = instuff_start_remain s - min (instuff_start_remain s) pkt_max"
      if "\<not> completed0" "plugin_packets s' = plugin_packets s"
    proof -
      have "r1 = 0" "s1 = s0" using that s1 True by auto
      then show ?thesis
        using that eqs s1 nf re True by (auto simp: min_def)
    qed
    then show ?thesis
      unfolding pkt_max_def [symmetric] using frame by blast
  next
    case False
    with mr assms have eqs: "pkt_read = r1" "completed = c1" "in_end = (c1 \<and> instuff_stop_remain s1 = 0)"
      "s' = s1"
      by simp_all
    have frame: "use_dts_analyzer s' = use_dts_analyzer s" "in_sync_lost s \<longrightarrow> in_sync_lost s'"
      "length (buffer s') = length (buffer s)" "length (metadata s') = length (metadata s)"
      "plugin_packets s \<le> plugin_packets s'"
      using eqs s1 by simp_all
    have "completed \<and> pkt_read = min (instuff_stop_remain s) pkt_max
        \<and> in_end = (instuff_stop_remain s \<le> pkt_max)
        \<and> instuff_stop_remain s' = instuff_stop_remain s - pkt_read
        \<and> instuff_start_remain s' = instuff_start_remain s - min (instuff_start_remain s) pkt_max"
      if "\<not> completed0" "plugin_packets s' = plugin_packets s"
    proof -
      have "r1 = 0" "s1 = s0" "c1" "n = 0" using that s1 eqs re by auto
      then show ?thesis
        using that eqs s1 re False by (auto simp: min_def)
    qed
    then show ?thesis
      unfolding pkt_max_def [symmetric] using frame by blast
  qed
qed

lemma getBitrate_effect:
  assumes "getBitrate E opts s = (br, s')"
  shows "in_sync_lost s' = in_sync_lost s \<and> (use_dts_analyzer s \<longrightarrow> use_dts_analyzer s')
     \<and> input s' = input s \<and> dts_analyzer s' = dts_analyzer s \<and> report s' = report s"
  using assms by (auto simp: getBitrate_def Let_def split: if_splits)

subsection \<open>Sequences of calls\<close>

text \<open>
  The methods that change the state of the input executor. \<open>invoke_all\<close> runs a
  sequence of such calls: what holds after every sequence holds at every later time.
\<close>

datatype call =
  GetBitrate
  | ReceiveNullPackets nat nat
  | ReceiveAndValidate nat nat
  | ReceiveAndStuff nat nat
  | MainRead nat nat bool
  | InitAllBuffers pipeline

fun invoke :: "'p env \<Rightarrow> options \<Rightarrow> call \<Rightarrow> 'p input_executor \<Rightarrow> 'p input_executor" where
  "invoke E opts GetBitrate s = snd (getBitrate E opts s)"
| "invoke E opts (ReceiveNullPackets index m) s = snd (receiveNullPackets index m s)"
| "invoke E opts (ReceiveAndValidate index m) s = snd (receiveAndValidate E index m s)"
| "invoke E opts (ReceiveAndStuff index m) s = snd (receiveAndStuff E opts index m s)"
| "invoke E opts (MainRead first m completed) s = snd (snd (snd (main_read E opts first m completed s)))"
| "invoke E opts (InitAllBuffers pl) s = fst (snd (initAllBuffers E opts s pl))"

fun invoke_all :: "'p env \<Rightarrow> options \<Rightarrow> call list \<Rightarrow> 'p input_executor \<Rightarrow> 'p input_executor" where
  "invoke_all E opts [] s = s"
| "invoke_all E opts (c # cs) s = invoke_all E opts cs (invoke E opts c s)"

lemma invoke_flags:
  "(in_sync_lost s \<longrightarrow> in_sync_lost (invoke E opts c s))
   \<and> (use_dts_analyzer s \<longrightarrow> use_dts_analyzer (invoke E opts c s))"
proof (cases c)
  case GetBitrate
  obtain br s' where r: "getBitrate E opts s = (br, s')"
    by (cases "getBitrate E opts s")
  from getBitrate_effect [OF r] r GetBitrate show ?thesis by simp
next
  case (ReceiveNullPackets index m)
  obtain n s' where r: "receiveNullPackets index m s = (n, s')"
    by (cases "receiveNullPackets index m s")
  from receiveNullPackets_frame [OF r] r ReceiveNullPackets show ?thesis by simp
next
  case (ReceiveAndValidate index m)
  obtain n s' where r: "receiveAndValidate E index m s = (n, s')"
    by (cases "receiveAndValidate E index m s")
  from receiveAndValidate_frame [OF r] r ReceiveAndValidate show ?thesis by simp
next
  case (ReceiveAndStuff index m)
  obtain n s' where r: "receiveAndStuff E opts index m s = (n, s')"
    by (cases "receiveAndStuff E opts index m s")
  from receiveAndStuff_effect [OF r] r ReceiveAndStuff show ?thesis by simp
next
  case (MainRead first m completed)
  obtain a b c' d where r: "main_read E opts first m completed s = (a, b, c', d)"
    by (metis prod_cases4)
  from main_read_effect [OF r] r MainRead show ?thesis by simp
next
  case (InitAllBuffers pl)
  obtain n s1 where rs: "receiveAndStuff E opts 0 (length (buffer s) div 2) s = (n, s1)"
    by (cases "receiveAndStuff E opts 0 (length (buffer s) div 2) s")
  obtain br s2 where gb: "getBitrate E opts s1 = (br, s2)"
    by (cases "getBitrate E opts s1")
  have "invoke E opts c s = (if n = 0 then s1 else s2\<lparr>report := report s2 @
                      [if br = 0 then (Verbose, ''unknown initial input bitrate'', [])
                       else (Verbose, ''initial input bitrate'', [br])]\<rparr>)"
    using InitAllBuffers rs gb by (simp add: initAllBuffers_def Let_def)
  then show ?thesis
    using receiveAndStuff_effect [OF rs] getBitrate_effect [OF gb] by simp
qed

lemma invoke_all_flags:
  "(in_sync_lost s \<longrightarrow> in_sync_lost (invoke_all E opts cs s))
   \<and> (use_dts_analyzer s \<longrightarrow> use_dts_analyzer (invoke_all E opts cs s))"
proof (induction cs arbitrary: s)
  case Nil
  show ?case by simp
next
  case (Cons c cs)
  from Cons [of "invoke E opts c s"] invoke_flags [of s E opts c] show ?case by simp
qed

lemma store_nth:
  "store index ys xs ! j =
     (if index \<le> j \<and> j < index + length ys \<and> j < length xs then ys ! (j - index) else xs ! j)"
proof (induction ys arbitrary: index xs)
  case Nil
  show ?case by auto
next
  case (Cons y ys)
  show ?case
    by (auto simp: Cons nth_list_update nth_Cons' Suc_diff_le list_update_beyond)
qed

lemma validate_loop_count:
  "validate_loop index n count s = (c, s') \<Longrightarrow> n \<le> count \<Longrightarrow>
     c = n + length (takeWhile hasValidSync (map (\<lambda>k. buffer s ! (index + k)) [n..<count]))
     \<and> in_sync_lost s' = (in_sync_lost s \<or> c < count)
     \<and> report s' = report s @
         (if c < count
          then [(Error, ''synchronization lost'',
                 [plugin_packets s + (c - n), unat (first_byte (buffer s ! (index + c))), unat SYNC_BYTE])]
          else [])"
proof (induction index n count s arbitrary: c s' rule: validate_loop.induct)
  case (1 index n count s)
  show ?case
  proof (cases "n < count")
    case False
    then show ?thesis
      using "1.prems" by (auto simp: validate_loop.simps)
  next
    case True
    then have upt: "[n..<count] = n # [Suc n..<count]"
      by (simp add: upt_conv_Cons)
    show ?thesis
    proof (cases "hasValidSync (buffer s ! (index + n))")
      case valid: True
      have v: "validate_loop index (Suc n) count
              (feedPacket (buffer s ! (index + n)) (addPluginPackets 1 s)) = (c, s')"
        using "1.prems" True valid by (subst (asm) validate_loop.simps) simp
      have "Suc n \<le> c"
        using validate_loop_frame [OF v] True by simp
      with "1.IH"(1) [OF True valid v] True valid upt show ?thesis
        by (auto simp: feedPacket_def addPluginPackets_def)
    next
      case invalid: False
      have "(c, s') = (n, s\<lparr>report := report s @
                      [(Error, ''synchronization lost'',
                        [plugin_packets s, unat (first_byte (buffer s ! (index + n))), unat SYNC_BYTE])],
                   in_sync_lost := True\<rparr>)"
        using "1.prems" True invalid
        by (subst (asm) validate_loop.simps) (auto simp: validate_loop.simps [of _ "Suc n" n])
      then show ?thesis using True invalid upt by auto
    qed
  qed
qed


subsection \<open>Concrete plugins, options and executors\<close>

text \<open>
  \<open>file_input\<close> is a plugin that reads a list of packets, as many as it is asked for,
  and whose bitrate is never known. \<open>two_estimators\<close> is a plugin that returns no
  packet, with a DTS analyzer that is valid after one packet and a PCR analyzer that is
  valid after two.
\<close>

definition real_packet :: "nat \<Rightarrow> packet" where
  "real_packet k = SYNC_BYTE # replicate 187 (word_of_nat k)"

definition unsynchronized_packet :: packet where
  "unsynchronized_packet = 0 # replicate 187 0xFF"

definition file_input :: "(packet list) env" where
  "file_input =
     \<lparr>receive = (\<lambda>ps m. (map (\<lambda>p. (p, reset_metadata)) (take m ps), drop m ps)),
      plugin_getBitrate = (\<lambda>ps. 0),
      pcr_bitrateIsValid = (\<lambda>fed. False), pcr_bitrate188 = (\<lambda>fed. 0),
      dts_bitrateIsValid = (\<lambda>fed. False), dts_bitrate188 = (\<lambda>fed. 0)\<rparr>"

definition two_estimators :: "unit env" where
  "two_estimators =
     \<lparr>receive = (\<lambda>p m. ([], p)),
      plugin_getBitrate = (\<lambda>p. 0),
      pcr_bitrateIsValid = (\<lambda>fed. 2 \<le> length fed), pcr_bitrate188 = (\<lambda>fed. 1000),
      dts_bitrateIsValid = (\<lambda>fed. 1 \<le> length fed), dts_bitrate188 = (\<lambda>fed. 2000)\<rparr>"

definition no_stuffing :: options where
  "no_stuffing = \<lparr>opt_bitrate = 0, instuff_start = 0, instuff_stop = 0, instuff_nullpkt = 0,
     instuff_inpkt = 0, max_input_pkt = 0, bitrate_adj = 5000, init_bitrate_adj = 5000\<rparr>"

definition stuffing_3_2_5_2 :: options where
  "stuffing_3_2_5_2 = \<lparr>opt_bitrate = 0, instuff_start = 3, instuff_stop = 2, instuff_nullpkt = 2,
     instuff_inpkt = 5, max_input_pkt = 0, bitrate_adj = 5000, init_bitrate_adj = 5000\<rparr>"

definition empty_slots :: "nat \<Rightarrow> packet list" where
  "empty_slots n = replicate n []"

definition lost_after_one :: "(packet list) input_executor" where
  "lost_after_one = InputExecutor no_stuffing [real_packet 1, unsynchronized_packet, real_packet 3]
      [[], [], [], []] [reset_metadata, reset_metadata, reset_metadata, reset_metadata]"

definition two_slots :: "unit input_executor" where
  "two_slots = InputExecutor no_stuffing () [[], []] [reset_metadata, reset_metadata]"

definition ended_input :: "(packet list) input_executor" where
  "ended_input = InputExecutor stuffing_3_2_5_2 [] (replicate 8 []) (replicate 8 reset_metadata)"

lemmas loops = receiveNullPackets_loop.simps reset_loop.simps validate_loop.simps leading_loop.simps stuff_loop.simps

lemma hasValidSync_simps [simp]: "hasValidSync (real_packet k)" "\<not> hasValidSync unsynchronized_packet"
  "hasValidSync NullPacket"
  by (simp_all add: hasValidSync_def real_packet_def unsynchronized_packet_def NullPacket_def SYNC_BYTE_def)

subsection \<open>Loss of synchronization\<close>

lemma received_buffer:
  assumes "index + m \<le> length (buffer s)"
  shows "map (\<lambda>k. buffer (received E index m s) ! (index + k))
           [0..<length (take m (fst (receive E (input s) m)))]
         = map fst (take m (fst (receive E (input s) m)))"
proof -
  let ?w = "take m (fst (receive E (input s) m))"
  have "length ?w \<le> m" by simp
  then have "buffer (received E index m s) ! (index + k) = map fst ?w ! k" if "k < length ?w" for k
    using that assms by (simp add: received_def Let_def store_nth del: length_take)
  then show ?thesis
    by (intro nth_equalityI) (simp_all del: length_take)
qed

lemma takeWhile_short: "(length (takeWhile P xs) < length xs) = (\<exists>x \<in> set xs. \<not> P x)"
proof -
  have "(length (takeWhile P xs) = length xs) = (takeWhile P xs = xs)"
    by (metis takeWhile_eq_take take_all_iff le_refl)
  then show ?thesis
    using length_takeWhile_le [of P xs] by (auto simp: takeWhile_eq_all_conv nat_less_le)
qed

lemma receiveAndValidate_checked:
  assumes "receiveAndValidate E index m s = (c, s')"
    and "index + m \<le> length (buffer s)"
    and "\<not> in_sync_lost s"
  shows "c = length (takeWhile hasValidSync (map fst (take m (fst (receive E (input s) m)))))"
    and "in_sync_lost s' = (\<exists>p \<in> set (map fst (take m (fst (receive E (input s) m)))). \<not> hasValidSync p)"
    and "\<exists>args. report s' = report s @
                (if in_sync_lost s' then [(Error, ''synchronization lost'', args)] else [])"
proof -
  let ?w = "take m (fst (receive E (input s) m))"
  let ?r = "received E index m s"
  have v: "validate_loop index 0 (length ?w) ?r = (c, s')"
    using assms(1) receiveAndValidate_read [OF assms(3), of E index m] by simp
  note vc = validate_loop_count [OF v, unfolded received_buffer [OF assms(2)]]
  show c: "c = length (takeWhile hasValidSync (map fst ?w))"
    using vc by simp
  have l: "in_sync_lost s' = (c < length ?w)"
    using vc assms(3) by simp
  have "length (map fst ?w) = length ?w"
    by (rule length_map)
  then show "in_sync_lost s' = (\<exists>p \<in> set (map fst ?w). \<not> hasValidSync p)"
    using takeWhile_short [of hasValidSync "map fst ?w"] c l by metis
  have "report s' = report s @
         (if in_sync_lost s'
          then [(Error, ''synchronization lost'',
                 [plugin_packets ?r + (c - 0), unat (first_byte (buffer ?r ! (index + c))), unat SYNC_BYTE])]
          else [])"
    using vc l by simp
  then show "\<exists>args. report s' = report s @
                (if in_sync_lost s' then [(Error, ''synchronization lost'', args)] else [])"
    by (cases "in_sync_lost s'") auto
qed

text \<open>
  C6. Once the flag \<open>_in_sync_lost\<close> is set, \<open>receiveAndValidate\<close> returns 0 and does
  not call the plugin. Otherwise, for an area inside the buffer, it returns the number of
  packets before the first one without the sync byte; the flag is set exactly when there
  is such a packet, and then one error is logged. After that, whatever calls follow and
  whatever the plugin would return, the flag stays set and \<open>receiveAndValidate\<close>
  returns 0 and leaves the state as it is.
\<close>

theorem receiveAndValidate_sync_loss:
  assumes "receiveAndValidate E index m s = (c, s')"
    and "index + m \<le> length (buffer s)"
    and "pkts = map fst (take m (fst (receive E (input s) m)))"
  shows "(in_sync_lost s \<longrightarrow> c = 0 \<and> s' = s)
     \<and> (\<not> in_sync_lost s \<longrightarrow>
          c = length (takeWhile hasValidSync pkts)
          \<and> in_sync_lost s' = (\<exists>p \<in> set pkts. \<not> hasValidSync p)
          \<and> (\<exists>args. report s' = report s @
                (if in_sync_lost s' then [(Error, ''synchronization lost'', args)] else [])))
     \<and> (\<forall>E' opts calls index' m'. in_sync_lost s' \<longrightarrow>
          in_sync_lost (invoke_all E' opts calls s')
          \<and> receiveAndValidate E' index' m' (invoke_all E' opts calls s')
              = (0, invoke_all E' opts calls s'))"
proof (intro conjI impI allI)
  assume "in_sync_lost s"
  then show "c = 0" "s' = s"
    using assms(1) by (simp_all add: receiveAndValidate_lost)
next
  assume n: "\<not> in_sync_lost s"
  show "c = length (takeWhile hasValidSync pkts)"
    unfolding assms(3) by (rule receiveAndValidate_checked(1) [OF assms(1,2) n])
  show "in_sync_lost s' = (\<exists>p \<in> set pkts. \<not> hasValidSync p)"
    unfolding assms(3) by (rule receiveAndValidate_checked(2) [OF assms(1,2) n])
  show "\<exists>args. report s' = report s @
                (if in_sync_lost s' then [(Error, ''synchronization lost'', args)] else [])"
    by (rule receiveAndValidate_checked(3) [OF assms(1,2) n])
next
  fix E' opts calls index' m'
  assume l: "in_sync_lost s'"
  then show "in_sync_lost (invoke_all E' opts calls s')"
    using invoke_all_flags [of s' E' opts calls] by simp
  then show "receiveAndValidate E' index' m' (invoke_all E' opts calls s')
              = (0, invoke_all E' opts calls s')"
    by (rule receiveAndValidate_lost)
qed

theorem receiveAndValidate_sync_loss_witness:
  "\<not> in_sync_lost lost_after_one \<and> 0 + 3 \<le> length (buffer lost_after_one)
   \<and> (\<exists>s'. receiveAndValidate file_input 0 3 lost_after_one = (1, s') \<and> in_sync_lost s'
        \<and> buffer s' = [real_packet 1, unsynchronized_packet, real_packet 3, []]
        \<and> input s' = []
        \<and> receiveAndValidate file_input 3 1 (invoke_all file_input no_stuffing [MainRead 1 3 False] s')
             = (0, invoke_all file_input no_stuffing [MainRead 1 3 False] s'))"
proof -
  have "\<exists>s'. receiveAndValidate file_input 0 3 lost_after_one = (1, s') 
        \<and> buffer s' = [real_packet 1, unsynchronized_packet, real_packet 3, []] \<and> input s' = []"
    by (simp add: receiveAndValidate_def lost_after_one_def InputExecutor_def file_input_def no_stuffing_def
        loops Let_def addPluginPackets_def feedPacket_def)
  then obtain s' where r: "receiveAndValidate file_input 0 3 lost_after_one = (1, s')"
    and b: "buffer s' = [real_packet 1, unsynchronized_packet, real_packet 3, []]" "input s' = []"
    by blast
  have l: "0 + 3 \<le> length (buffer lost_after_one)" "\<not> in_sync_lost lost_after_one"
    by (simp_all add: lost_after_one_def InputExecutor_def)
  from receiveAndValidate_sync_loss [OF r l(1) refl] l(2)
  have i: "in_sync_lost s' = (\<exists>p \<in> set (map fst (take 3 (fst (receive file_input (input lost_after_one) 3)))). \<not> hasValidSync p)"
    and a: "\<forall>E' opts calls index' m'. in_sync_lost s' \<longrightarrow>
          receiveAndValidate E' index' m' (invoke_all E' opts calls s') = (0, invoke_all E' opts calls s')"
    by blast+
  have "in_sync_lost s'"
    unfolding i by (simp add: lost_after_one_def InputExecutor_def file_input_def)
  moreover from this a
  have "receiveAndValidate file_input 3 1 (invoke_all file_input no_stuffing [MainRead 1 3 False] s')
             = (0, invoke_all file_input no_stuffing [MainRead 1 3 False] s')"
    by blast
  ultimately show ?thesis using r b l by blast
qed

subsection \<open>The choice of the bitrate estimator\<close>

text \<open>
  C7. Once the flag \<open>_use_dts_analyzer\<close> is set, it stays set after every sequence of
  calls, \<open>getBitrate\<close> included, and every call of \<open>getBitrate\<close> with no bitrate from
  the command line nor from the plugin returns the estimate of the DTS analyzer, whether
  the PCR analyzer is valid or not.
\<close>

theorem getBitrate_dts_sticky:
  assumes "use_dts_analyzer s" and "t = invoke_all E opts calls s"
  shows "use_dts_analyzer t
     \<and> use_dts_analyzer (snd (getBitrate E opts t))
     \<and> (opt_bitrate opts = 0 \<and> plugin_getBitrate E (input t) = 0 \<longrightarrow>
          getBitrate E opts t = (dts_bitrate188 E (dts_analyzer t), t))"
proof -
  have t: "use_dts_analyzer t"
    using assms invoke_all_flags [of s E opts calls] by simp
  then show ?thesis
    by (simp add: getBitrate_def Let_def)
qed

theorem getBitrate_dts_sticky_witness:
  "use_dts_analyzer (invoke_all two_estimators no_stuffing [ReceiveNullPackets 0 1, GetBitrate] two_slots)
   \<and> pcr_bitrateIsValid two_estimators (pcr_analyzer
        (invoke_all two_estimators no_stuffing [ReceiveNullPackets 0 1, GetBitrate, ReceiveNullPackets 1 1] two_slots))
   \<and> fst (getBitrate two_estimators no_stuffing
        (invoke_all two_estimators no_stuffing [ReceiveNullPackets 0 1, GetBitrate, ReceiveNullPackets 1 1] two_slots))
       = 2000"
proof -
  let ?s = "invoke_all two_estimators no_stuffing [ReceiveNullPackets 0 1, GetBitrate] two_slots"
  let ?t = "invoke_all two_estimators no_stuffing [ReceiveNullPackets 1 1] ?s"
  have u: "use_dts_analyzer ?s"
    by (simp add: two_slots_def InputExecutor_def two_estimators_def no_stuffing_def getBitrate_def
        receiveNullPackets_def loops feedPacket_def addNonPluginPackets_def Let_def)
  have p: "pcr_bitrateIsValid two_estimators (pcr_analyzer ?t)"
    by (simp add: two_slots_def InputExecutor_def two_estimators_def no_stuffing_def getBitrate_def
        receiveNullPackets_def loops feedPacket_def addNonPluginPackets_def Let_def)
  have "opt_bitrate no_stuffing = 0 \<and> plugin_getBitrate two_estimators (input ?t) = 0"
    by (simp add: two_estimators_def no_stuffing_def)
  with getBitrate_dts_sticky [OF u refl, of two_estimators no_stuffing "[ReceiveNullPackets 1 1]"]
  have "getBitrate two_estimators no_stuffing ?t = (dts_bitrate188 two_estimators (dts_analyzer ?t), ?t)"
    by blast
  then have "fst (getBitrate two_estimators no_stuffing ?t) = 2000"
    by (simp add: two_estimators_def)
  then show ?thesis using u p by simp
qed

subsection \<open>A read that produces only stuffing\<close>

text \<open>
  C10. In an iteration of \<open>main\<close> with the plugin not yet completed, when the plugin
  contributes no packet (the count of plugin packets does not move), \<open>receiveAndStuff\<close>
  returns 0 although it has consumed the initial stuffing that fits in the area, \<open>main\<close>
  takes the plugin as completed, and the packets it passes on are the trailing stuffing
  only: the initial stuffing is not delivered.
\<close>

theorem stuffing_only_is_completion:
  assumes "main_read E opts first pkt_max False s = (pkt_read, completed, in_end, s')"
    and "max_input_pkt opts = 0 \<or> pkt_max \<le> max_input_pkt opts"
    and "plugin_packets s' = plugin_packets s"
  shows "fst (receiveAndStuff E opts first pkt_max s) = 0
     \<and> instuff_start_remain (snd (receiveAndStuff E opts first pkt_max s))
         = instuff_start_remain s - min (instuff_start_remain s) pkt_max
     \<and> completed
     \<and> pkt_read = min (instuff_stop_remain s) pkt_max
     \<and> in_end = (instuff_stop_remain s \<le> pkt_max)
     \<and> instuff_stop_remain s' = instuff_stop_remain s - pkt_read
     \<and> instuff_start_remain s' = instuff_start_remain s - min (instuff_start_remain s) pkt_max"
proof -
  have clamp: "(if max_input_pkt opts > 0 \<and> pkt_max > max_input_pkt opts then max_input_pkt opts else pkt_max) = pkt_max"
    using assms(2) by auto
  obtain n s0 where rs: "receiveAndStuff E opts first pkt_max s = (n, s0)"
    by (cases "receiveAndStuff E opts first pkt_max s")
  have m: "completed
     \<and> pkt_read = min (instuff_stop_remain s) pkt_max
     \<and> in_end = (instuff_stop_remain s \<le> pkt_max)
     \<and> instuff_stop_remain s' = instuff_stop_remain s - pkt_read
     \<and> instuff_start_remain s' = instuff_start_remain s - min (instuff_start_remain s) pkt_max"
    using main_read_effect [OF assms(1)] assms(3) by (simp only: clamp) simp
  have "completed = (n = 0)"
    using assms(1) rs by (auto simp: main_read_unfold Let_def clamp split: if_splits)
  then show ?thesis
    using m rs receiveAndStuff_effect [OF rs] by simp
qed

theorem stuffing_only_is_completion_witness:
  "instuff_start_remain ended_input = 3
   \<and> (\<exists>s'. main_read file_input stuffing_3_2_5_2 0 8 False ended_input = (2, True, True, s')
         \<and> plugin_packets s' = plugin_packets ended_input
         \<and> instuff_start_remain s' = 0
         \<and> take 3 (buffer s') = [NullPacket, NullPacket, NullPacket])
   \<and> fst (receiveAndStuff file_input stuffing_3_2_5_2 0 8 ended_input) = 0"
proof -
  have "\<exists>s'. main_read file_input stuffing_3_2_5_2 0 8 False ended_input = (2, True, True, s')
         \<and> plugin_packets s' = plugin_packets ended_input
         \<and> take 3 (buffer s') = [NullPacket, NullPacket, NullPacket]"
    by (simp add: main_read_def receiveAndStuff_def receiveAndValidate_def receiveNullPackets_def
        stuff_step_def restart_input_def restart_nulls_def
        ended_input_def InputExecutor_def file_input_def stuffing_3_2_5_2_def
        loops Let_def addPluginPackets_def addNonPluginPackets_def feedPacket_def eval_nat_numeral)
  then obtain s' where m: "main_read file_input stuffing_3_2_5_2 0 8 False ended_input = (2, True, True, s')"
    and p: "plugin_packets s' = plugin_packets ended_input"
    and b: "take 3 (buffer s') = [NullPacket, NullPacket, NullPacket]"
    by blast
  have o: "max_input_pkt stuffing_3_2_5_2 = 0 \<or> 8 \<le> max_input_pkt stuffing_3_2_5_2"
    by (simp add: stuffing_3_2_5_2_def)
  have i: "instuff_start_remain ended_input = 3"
    by (simp add: ended_input_def InputExecutor_def stuffing_3_2_5_2_def)
  from stuffing_only_is_completion [OF m o p] i
  have "fst (receiveAndStuff file_input stuffing_3_2_5_2 0 8 ended_input) = 0"
    and "instuff_start_remain s' = 0"
    by simp_all
  then show ?thesis using m p b i by blast
qed


section \<open>The edge from the output executor back to the input executor\<close>








section \<open>The sequence of stuffing and input packets\<close>
















section \<open>Restarting a plugin on request\<close>

text \<open>
  The flags of \<open>Args\<close> that \<open>analyze\<close> and the help, version and error exits read. A
  plugin is an \<open>Args\<close>; what it has parsed and opened is its \<open>plugin_state\<close>, the
  arguments that \<open>analyze\<close> saved are \<open>command_args\<close> (the member \<open>_args\<close>), and
  \<open>subreport\<close> is the report that \<open>redirectReport\<close> installed.
\<close>

datatype args_flag =
  NO_ERROR_DISPLAY | NO_EXIT_ON_ERROR | NO_EXIT_ON_HELP | NO_EXIT_ON_VERSION | GATHER_PARAMETERS
  | HELP_ON_THIS | NO_DEBUG | NO_HELP | NO_VERBOSE | NO_VERSION | NO_CONFIG_FILE

text \<open>A report is referred to by the restart request that owns it.\<close>

datatype report_ref = RestartReport nat

record 'q plugin =
  plugin_state :: 'q
  command_args :: "string list"
  flags :: "args_flag set"
  subreport :: "report_ref option"









text \<open>
  \<open>RestartData\<close>: \<open>rd_report\<close> is what has been logged on the report of the request and
  \<open>rd_condition\<close> counts the signals on its condition. The request is shared between
  the executor and the thread that waits for it, so the requests are kept in a store and
  \<open>_restart_data\<close> is a reference into it.
\<close>

record restart_data =
  rd_report :: "message list"
  same_args :: bool
  rd_args :: "string list"
  completed :: bool
  rd_condition :: nat

record 'q restartable =
  plugin :: "'q plugin"
  pluginName :: string
  restart :: bool
  restart_data :: "nat option"
  requests :: "nat \<Rightarrow> restart_data"
  thread_log :: "message list"



section \<open>Properties of the restart\<close>






















end
